theory Spec2Isabelle
  imports Main "HOL-Library.Sublist"
begin

section \<open>The line patcher of scripts/fix\_file.py\<close>

text \<open>
  The script reads the whole of \<^verbatim>\<open>shared/chamber-members.ts\<close>, splits it at
  newlines, scans the lines once with a cursor \<open>i\<close>, collecting the output in
  \<open>result\<close>, and writes the lines back joined by newlines. The model follows the
  script statement by statement: a line is a \<open>string\<close>, the list of lines is a
  \<open>string list\<close>, every \<open>lines[k]\<close> is a read that raises \<open>IndexError\<close> out of
  range, and each \<open>while\<close> loop is a recursive function on its cursor.
\<close>

subsection \<open>Errors\<close>

datatype error = IndexError | FileNotFoundError

text \<open>\<open>lines[k]\<close> for a non-negative \<open>k\<close>: Python raises \<open>IndexError\<close> past the end.\<close>

definition nth_py :: "'a list \<Rightarrow> nat \<Rightarrow> error + 'a" where
  "nth_py xs k = (if k < length xs then Inr (xs ! k) else Inl IndexError)"

subsection \<open>String operations of the Python library\<close>

text \<open>
  \<open>str.isspace\<close> on one character, for the code points below 256 that a \<open>char\<close>
  holds: tab, line feed, vertical tab, form feed, carriage return, the separators
  0x1C to 0x1F, space, next line (0x85) and no-break space (0xA0).
\<close>

definition is_space :: "char \<Rightarrow> bool" where
  "is_space c = (of_char c \<in> {9, 10, 11, 12, 13, 28, 29, 30, 31, 32, 133, 160 :: nat})"

text \<open>\<open>s.strip()\<close>: whitespace removed at both ends.\<close>

definition strip :: "string \<Rightarrow> string" where
  "strip s = rev (dropWhile is_space (rev (dropWhile is_space s)))"

text \<open>\<open>s.startswith(p)\<close>.\<close>

definition startswith :: "string \<Rightarrow> string \<Rightarrow> bool" where
  "startswith s p = (take (length p) s = p)"

text \<open>\<open>content.split('\n')\<close>: always at least one piece.\<close>

fun split_nl :: "string \<Rightarrow> string list" where
  "split_nl [] = [[]]"
| "split_nl (c # cs) =
     (if c = CHR 0x0A then [] # split_nl cs
      else (c # hd (split_nl cs)) # tl (split_nl cs))"

text \<open>\<open>'\n'.join(result)\<close>.\<close>

fun join_nl :: "string list \<Rightarrow> string" where
  "join_nl [] = []"
| "join_nl [l] = l"
| "join_nl (l # ls) = l @ CHR 0x0A # join_nl ls"

subsection \<open>The tests the scan makes on a line\<close>

text \<open>Rule 1's trigger: \<open>line.strip() == '},' and line.startswith('    ')\<close>.\<close>

definition is_inner_close :: "string \<Rightarrow> bool" where
  "is_inner_close line = (strip line = ''},'' \<and> startswith line ''    '')"

text \<open>
  The test of both lookahead loops:
  \<open>stripped == '' or stripped.startswith('//')\<close>.
\<close>

definition blank_or_comment :: "string \<Rightarrow> bool" where
  "blank_or_comment line = (strip line = [] \<or> startswith (strip line) ''//'')"

text \<open>
  \<open>k < len(lines) and P(lines[k])\<close>: Python's \<open>and\<close> reads \<open>lines[k]\<close> only
  when the bound check has passed.
\<close>

definition guarded_at :: "string list \<Rightarrow> nat \<Rightarrow> (string \<Rightarrow> bool) \<Rightarrow> error + bool" where
  "guarded_at lines k P =
     (if k < length lines
      then (case nth_py lines k of Inl e \<Rightarrow> Inl e | Inr l \<Rightarrow> Inr (P l))
      else Inr False)"

subsection \<open>Rule 1's lookahead loop\<close>

text \<open>
  The loop at \<open>while j < len(lines)\<close> inside the first branch. It returns the final
  \<open>j\<close>, the buffer and \<open>found_array_start\<close>. The branch for \<open>'  },'\<close> and the
  last \<open>else\<close> both only break.
\<close>

function lookahead :: "string list \<Rightarrow> nat \<Rightarrow> string list \<Rightarrow> error + (nat \<times> string list \<times> bool)" where
  "lookahead lines j buffer =
     (if j < length lines then
        (case nth_py lines j of
           Inl e \<Rightarrow> Inl e
         | Inr next_line \<Rightarrow>
             (let stripped = strip next_line in
              if stripped = [] \<or> startswith stripped ''//''
              then lookahead lines (j + 1) (buffer @ [next_line])
              else if next_line = ''  {'' then Inr (j, buffer, True)
              else if next_line = ''  },'' then Inr (j, buffer, False)
              else Inr (j, buffer, False)))
      else Inr (j, buffer, False))"
  by pat_completeness auto
termination
  by (relation "measure (\<lambda>(lines, j, buffer). length lines - j)") auto

declare lookahead.simps [simp del]

text \<open>
  The same loop, recording the pair of \<open>j\<close> and \<open>buffer\<close> that each turn starts
  with instead of returning the last one: a turn that appends and goes on is
  followed by the next pair, a turn that breaks (or the loop test failing) ends the
  list.
\<close>

function lookahead_states :: "string list \<Rightarrow> nat \<Rightarrow> string list \<Rightarrow> (nat \<times> string list) list" where
  "lookahead_states lines j buffer =
     (if j < length lines \<and>
         (strip (lines ! j) = [] \<or> startswith (strip (lines ! j)) ''//'')
      then (j, buffer) # lookahead_states lines (j + 1) (buffer @ [lines ! j])
      else [(j, buffer)])"
  by pat_completeness auto
termination
  by (relation "measure (\<lambda>(lines, j, buffer). length lines - j)") auto

declare lookahead_states.simps [simp del]

subsection \<open>Rule 2's lookahead loop\<close>

text \<open>
  \<open>while j < len(lines) and (lines[j].strip() == '' or
  lines[j].strip().startswith('//')): j += 1\<close>, returning the final \<open>j\<close>.
\<close>

function skip_run :: "string list \<Rightarrow> nat \<Rightarrow> error + nat" where
  "skip_run lines j =
     (case guarded_at lines j blank_or_comment of
        Inl e \<Rightarrow> Inl e
      | Inr b \<Rightarrow> if b then skip_run lines (j + 1) else Inr j)"
  by pat_completeness auto
termination
  by (relation "measure (\<lambda>(lines, j). length lines - j)")
     (auto simp: guarded_at_def nth_py_def split: if_splits)

declare skip_run.simps [simp del]

subsection \<open>The main scan loop\<close>

text \<open>\<open>any(l == '  },' for l in buffer)\<close>.\<close>

definition has_close :: "string list \<Rightarrow> bool" where
  "has_close buffer = list_ex (\<lambda>l. l = ''  },'') buffer"

text \<open>
  The loop \<open>while i < len(lines)\<close>. After an insertion the script sets \<open>i = j - 1\<close>
  and falls through to \<open>i += 1\<close>; the dropping branch does \<open>i += 1; continue\<close>
  without appending.
\<close>

function scan :: "string list \<Rightarrow> nat \<Rightarrow> string list \<Rightarrow> error + string list" where
  "scan lines i result =
     (if i < length lines then
        (case nth_py lines i of
           Inl e \<Rightarrow> Inl e
         | Inr line \<Rightarrow>
             if strip line = ''},'' \<and> startswith line ''    '' then
               (case lookahead lines (i + 1) [] of
                  Inl e \<Rightarrow> Inl e
                | Inr (j, buffer, found_array_start) \<Rightarrow>
                    if found_array_start then
                      scan lines (j - 1 + 1)
                        ((if \<not> has_close buffer then (result @ [line]) @ [''  },'']
                          else result @ [line]) @ buffer)
                    else scan lines (i + 1) (result @ [line]))
             else if line = ''  },'' then
               (case guarded_at lines (i + 1) (\<lambda>l. l = ''  {'') of
                  Inl e \<Rightarrow> Inl e
                | Inr follows \<Rightarrow>
                    if follows then scan lines (i + 1) (result @ [line])
                    else
                      (case guarded_at lines (i + 1) (\<lambda>l. strip l = []) of
                         Inl e \<Rightarrow> Inl e
                       | Inr blank \<Rightarrow>
                           if blank then
                             (case skip_run lines (i + 1) of
                                Inl e \<Rightarrow> Inl e
                              | Inr j \<Rightarrow>
                                  (case guarded_at lines j (\<lambda>l. l = ''  {'') of
                                     Inl e \<Rightarrow> Inl e
                                   | Inr misplaced \<Rightarrow>
                                       if misplaced then scan lines (i + 1) result
                                       else scan lines (i + 1) (result @ [line])))
                           else scan lines (i + 1) (result @ [line])))
             else scan lines (i + 1) (result @ [line]))
      else Inr result)"
  by pat_completeness auto
termination
proof -
  have bounds: "j \<le> j' \<and> (found \<longrightarrow> j' < length lines)"
    if "lookahead lines j buffer = Inr (j', buffer', found)"
    for lines j buffer j' buffer' found
    using that
  proof (induction lines j buffer rule: lookahead.induct)
    case (1 lines j buffer)
    show ?case
    proof (cases "j < length lines")
      case False
      with "1.prems" show ?thesis
        by (simp add: lookahead.simps [of lines j buffer])
    next
      case True
      show ?thesis
      proof (cases "strip (lines ! j) = [] \<or> startswith (strip (lines ! j)) ''//''")
        case bc: True
        with True "1.prems"
        have "lookahead lines (j + 1) (buffer @ [lines ! j]) = Inr (j', buffer', found)"
          by (simp add: lookahead.simps [of lines j buffer] nth_py_def)
        with "1.IH" [of "lines ! j" "strip (lines ! j)"] True bc
        have "j + 1 \<le> j' \<and> (found \<longrightarrow> j' < length lines)"
          by (simp add: nth_py_def)
        then show ?thesis by simp
      next
        case False
        with True "1.prems" show ?thesis
          by (auto simp: lookahead.simps [of lines j buffer] nth_py_def Let_def
              split: if_splits)
      qed
    qed
  qed
  show ?thesis
  proof (relation "measure (\<lambda>(lines, i, result). length lines - i)", goal_cases)
    case 1
    show ?case by simp
  next
    case (2 lines i result line p j q buffer found)
    then have "lookahead lines (i + 1) [] = Inr (j, buffer, True)"
      by simp
    from bounds [OF this] have "i + 1 \<le> j" "j < length lines"
      by simp_all
    then show ?case by simp
  qed simp_all
qed

declare scan.simps [simp del]

subsection \<open>The script as a whole\<close>

text \<open>\<open>i = 0\<close>, \<open>result = []\<close>, then the loop.\<close>

definition fix_lines :: "string list \<Rightarrow> error + string list" where
  "fix_lines lines = scan lines 0 []"

text \<open>From the text read to the text written.\<close>

definition fix_content :: "string \<Rightarrow> error + string" where
  "fix_content content =
     (case fix_lines (split_nl content) of
        Inl e \<Rightarrow> Inl e
      | Inr result \<Rightarrow> Inr (join_nl result))"

text \<open>
  The file system holds the text of each file, as \<open>f.read()\<close> returns it and
  \<open>f.write\<close> takes it. The script opens a fixed path, which fails when the file is
  absent, writes the new text to the same path and prints one line.
\<close>

type_synonym filesystem = "string \<rightharpoonup> string"

definition target_path :: string where
  "target_path = ''shared/chamber-members.ts''"

definition run_script :: "filesystem \<Rightarrow> error + (filesystem \<times> string)" where
  "run_script fs =
     (case fs target_path of
        None \<Rightarrow> Inl FileNotFoundError
      | Some content \<Rightarrow>
          (case fix_content content of
             Inl e \<Rightarrow> Inl e
           | Inr out \<Rightarrow> Inr (fs(target_path \<mapsto> out), ''Fixed file'' @ [CHR 0x0A])))"

subsection \<open>The scan seen from the remaining lines\<close>

text \<open>
  What the loops compute depends only on the lines from the cursor on. The three
  definitions below restate the two lookaheads and one turn of the main loop on that
  list; \<open>scan_eq\<close> proves that the loop computes exactly \<open>patch\<close>, and the results
  about the script are derived through it.
\<close>

definition next_is_open :: "string list \<Rightarrow> bool" where
  "next_is_open xs =
     (case dropWhile blank_or_comment xs of [] \<Rightarrow> False | x # _ \<Rightarrow> x = ''  {'')"

definition blank_first :: "string list \<Rightarrow> bool" where
  "blank_first xs = (case xs of [] \<Rightarrow> False | x # _ \<Rightarrow> strip x = [])"

fun patch :: "string list \<Rightarrow> string list" where
  "patch [] = []"
| "patch (l # rest) =
     (if is_inner_close l then
        (if next_is_open rest then [l, ''  },''] else [l]) @ patch rest
      else if l = ''  },'' \<and> blank_first rest \<and> next_is_open rest then patch rest
      else l # patch rest)"

subsection \<open>What each input line contributes\<close>

text \<open>
  Two tests on the input alone. Rule 2 removes the line at \<open>i\<close> when it is
  \<open>'  },'\<close>, the next line is blank, and the run of blank or comment-only lines
  after it ends at \<open>'  {'\<close>. Rule 1 inserts after the line at \<open>i\<close> when it passes
  rule 1's trigger and the run of blank or comment-only lines after it ends at
  \<open>'  {'\<close>. A line then contributes itself and the inserted marker, or nothing, or
  itself; \<open>kept_lines\<close> is the input without the lines rule 2 removes.
\<close>

definition dropped_at :: "string list \<Rightarrow> nat \<Rightarrow> bool" where
  "dropped_at lines i =
     (lines ! i = ''  },'' \<and> blank_first (drop (Suc i) lines) \<and>
      next_is_open (drop (Suc i) lines))"

definition inserted_after :: "string list \<Rightarrow> nat \<Rightarrow> bool" where
  "inserted_after lines i =
     (is_inner_close (lines ! i) \<and> next_is_open (drop (Suc i) lines))"

definition emitted :: "string list \<Rightarrow> nat \<Rightarrow> string list" where
  "emitted lines i =
     (if inserted_after lines i then [lines ! i, ''  },'']
      else if dropped_at lines i then []
      else [lines ! i])"

definition kept_lines :: "string list \<Rightarrow> string list" where
  "kept_lines lines =
     map (\<lambda>i. lines ! i) (filter (\<lambda>i. \<not> dropped_at lines i) [0..<length lines])"

section \<open>Facts about the tests on lines\<close>

lemma strip_outer_close: "strip ''  },'' = ''},''"
  by (simp add: strip_def is_space_def)

lemma strip_open: "strip ''  {'' = ''{''"
  by (simp add: strip_def is_space_def)

lemma strip_inner: "strip ''    },'' = ''},''"
  by (simp add: strip_def is_space_def)

lemma inner_close_literal: "is_inner_close ''    },''"
  by (simp add: is_inner_close_def strip_def is_space_def startswith_def)

lemma blank_or_comment_not_outer: "blank_or_comment l \<Longrightarrow> l \<noteq> ''  },''"
  by (auto simp: blank_or_comment_def strip_outer_close startswith_def)

lemma blank_or_comment_not_open: "blank_or_comment l \<Longrightarrow> l \<noteq> ''  {''"
  by (auto simp: blank_or_comment_def strip_open startswith_def)

lemma blank_or_comment_not_inner: "blank_or_comment l \<Longrightarrow> \<not> is_inner_close l"
  by (auto simp: blank_or_comment_def is_inner_close_def startswith_def)

lemma inner_not_outer: "is_inner_close l \<Longrightarrow> l \<noteq> ''  },''"
  by (auto simp: is_inner_close_def startswith_def)

lemma inner_not_open: "is_inner_close l \<Longrightarrow> l \<noteq> ''  {''"
  by (auto simp: is_inner_close_def startswith_def)

section \<open>The loops in closed form\<close>

lemma lookahead_eq:
  "lookahead lines j buffer =
     Inr (j + length (takeWhile blank_or_comment (drop j lines)),
          buffer @ takeWhile blank_or_comment (drop j lines),
          next_is_open (drop j lines))"
proof (induction lines j buffer rule: lookahead.induct)
  case (1 lines j buffer)
  show ?case
  proof (cases "j < length lines")
    case False
    then show ?thesis
      by (simp add: lookahead.simps [of lines j buffer] next_is_open_def)
  next
    case True
    then have d: "drop j lines = lines ! j # drop (Suc j) lines"
      by (simp add: Cons_nth_drop_Suc)
    show ?thesis
    proof (cases "blank_or_comment (lines ! j)")
      case bc: True
      then have bc': "strip (lines ! j) = [] \<or> startswith (strip (lines ! j)) ''//''"
        by (simp add: blank_or_comment_def)
      then have "lookahead lines j buffer = lookahead lines (j + 1) (buffer @ [lines ! j])"
        using True by (simp add: lookahead.simps [of lines j buffer] nth_py_def)
      also have "\<dots> = Inr (j + 1 + length (takeWhile blank_or_comment (drop (j + 1) lines)),
          (buffer @ [lines ! j]) @ takeWhile blank_or_comment (drop (j + 1) lines),
          next_is_open (drop (j + 1) lines))"
        using "1.IH" [of "lines ! j" "strip (lines ! j)"] True bc'
        by (simp add: nth_py_def)
      finally show ?thesis
        using bc by (simp add: d next_is_open_def)
    next
      case False
      then have nbc: "\<not> (strip (lines ! j) = [] \<or> startswith (strip (lines ! j)) ''//'')"
        by (simp add: blank_or_comment_def)
      then have "lookahead lines j buffer = Inr (j, buffer, lines ! j = ''  {'')"
        using True by (simp add: lookahead.simps [of lines j buffer] nth_py_def Let_def)
      then show ?thesis
        using False by (simp add: d next_is_open_def)
    qed
  qed
qed

lemma skip_run_eq:
  "skip_run lines j = Inr (j + length (takeWhile blank_or_comment (drop j lines)))"
proof (induction lines j rule: skip_run.induct)
  case (1 lines j)
  show ?case
  proof (cases "j < length lines \<and> blank_or_comment (lines ! j)")
    case True
    then have d: "drop j lines = lines ! j # drop (Suc j) lines"
      by (simp add: Cons_nth_drop_Suc)
    from True have g: "guarded_at lines j blank_or_comment = Inr True"
      by (simp add: guarded_at_def nth_py_def)
    with "1.IH" [of True] have "skip_run lines (j + 1) =
        Inr (j + 1 + length (takeWhile blank_or_comment (drop (j + 1) lines)))"
      by simp
    with g True show ?thesis
      by (simp add: skip_run.simps [of lines j] d)
  next
    case False
    then have g: "guarded_at lines j blank_or_comment = Inr False"
      by (auto simp: guarded_at_def nth_py_def)
    have "takeWhile blank_or_comment (drop j lines) = []"
    proof (cases "j < length lines")
      case True
      with False show ?thesis by (simp add: Cons_nth_drop_Suc [symmetric])
    next
      case False
      then show ?thesis by simp
    qed
    with g show ?thesis
      by (simp add: skip_run.simps [of lines j])
  qed
qed

lemma guarded_at_eq:
  "guarded_at lines k P = Inr (case drop k lines of [] \<Rightarrow> False | x # _ \<Rightarrow> P x)"
  by (cases "k < length lines")
     (simp_all add: guarded_at_def nth_py_def Cons_nth_drop_Suc [symmetric])


lemma patch_blank_or_comment: "blank_or_comment x \<Longrightarrow> patch (x # xs) = x # patch xs"
  by (simp add: blank_or_comment_not_inner blank_or_comment_not_outer)

lemma patch_skip:
  "patch xs = takeWhile blank_or_comment xs @ patch (dropWhile blank_or_comment xs)"
  by (induction xs) (simp_all add: patch_blank_or_comment del: patch.simps(2))

lemma patch_run: "\<forall>l\<in>set run. blank_or_comment l \<Longrightarrow> patch (run @ xs) = run @ patch xs"
  by (induction run) (simp_all add: patch_blank_or_comment del: patch.simps(2))

lemma no_close_in_run: "\<not> has_close (takeWhile blank_or_comment xs)"
  by (auto simp: has_close_def list_ex_iff dest!: set_takeWhileD blank_or_comment_not_outer)

lemma scan_eq: "scan lines i result = Inr (result @ patch (drop i lines))"
proof (induction "length lines - i" arbitrary: i result rule: less_induct)
  case less
  show ?case
  proof (cases "i < length lines")
    case False
    then show ?thesis by (simp add: scan.simps [of lines i result, folded is_inner_close_def])
  next
    case True
    define line where "line = lines ! i"
    define rest where "rest = drop (Suc i) lines"
    define tw where "tw = takeWhile blank_or_comment rest"
    have d: "drop i lines = line # rest"
      using True by (simp add: line_def rest_def Cons_nth_drop_Suc)
    have IH: "scan lines k r = Inr (r @ patch (drop k lines))" if "i < k" for k r
      using less [of k r] that True by simp
    have dj: "drop (Suc (i + length tw)) lines = dropWhile blank_or_comment rest"
      by (simp add: tw_def rest_def dropWhile_eq_drop add.commute)
    have nth: "nth_py lines i = Inr line"
      using True by (simp add: nth_py_def line_def)
    have la: "lookahead lines (Suc i) [] = Inr (Suc (i + length tw), tw, next_is_open rest)"
      by (simp add: lookahead_eq rest_def tw_def)
    have sk: "skip_run lines (Suc i) = Inr (Suc (i + length tw))"
      by (simp add: skip_run_eq rest_def tw_def)
    have g1: "guarded_at lines (Suc i) P = Inr (case rest of [] \<Rightarrow> False | x # _ \<Rightarrow> P x)" for P
      by (simp add: guarded_at_eq rest_def)
    have g2: "guarded_at lines (Suc (i + length tw)) (\<lambda>l. l = ''  {'') = Inr (next_is_open rest)"
      by (simp add: guarded_at_eq dj next_is_open_def)
    show ?thesis
    proof (cases "is_inner_close line")
      case inner: True
      note c = inner
      show ?thesis
      proof (cases "next_is_open rest")
        case True
        have "scan lines i result = scan lines (Suc (i + length tw)) (result @ [line, ''  },''] @ tw)"
          using \<open>i < length lines\<close> c True
          by (simp add: scan.simps [of lines i result, folded is_inner_close_def] nth la no_close_in_run tw_def)
        also have "\<dots> = Inr (result @ [line, ''  },''] @ tw @ patch (dropWhile blank_or_comment rest))"
          by (simp add: IH dj)
        also have "tw @ patch (dropWhile blank_or_comment rest) = patch rest"
          unfolding tw_def by (rule patch_skip [symmetric])
        finally show ?thesis
          using inner True by (simp add: d)
      next
        case False
        have "scan lines i result = scan lines (i + 1) (result @ [line])"
          using \<open>i < length lines\<close> c False
          by (simp add: scan.simps [of lines i result, folded is_inner_close_def] nth la)
        then show ?thesis
          using inner False by (simp add: IH d rest_def)
      qed
    next
      case not_inner: False
      note c = not_inner
      show ?thesis
      proof (cases "line = ''  },''")
        case False
        have "scan lines i result = scan lines (i + 1) (result @ [line])"
          using \<open>i < length lines\<close> c False
          by (simp add: scan.simps [of lines i result, folded is_inner_close_def] nth)
        then show ?thesis
          using not_inner False by (simp add: IH d rest_def)
      next
        case outer: True
        show ?thesis
        proof (cases "blank_first rest \<and> next_is_open rest")
          case True
          then have nf: "\<not> (case rest of [] \<Rightarrow> False | x # _ \<Rightarrow> x = ''  {'')"
            by (auto simp: blank_first_def strip_open split: list.splits)
          from True have bl: "(case rest of [] \<Rightarrow> False | x # _ \<Rightarrow> strip x = [])"
            by (simp add: blank_first_def)
          have "scan lines i result = scan lines (i + 1) result"
            using \<open>i < length lines\<close> c outer nf bl True
            by (simp add: scan.simps [of lines i result, folded is_inner_close_def] nth g1 sk g2)
          then show ?thesis
            using not_inner outer True by (simp add: IH d rest_def)
        next
          case False
          have "scan lines i result = scan lines (i + 1) (result @ [line])"
            using \<open>i < length lines\<close> c outer False
            by (simp add: scan.simps [of lines i result, folded is_inner_close_def] nth g1 sk g2 blank_first_def)
          then show ?thesis
            using not_inner outer False by (simp add: IH d rest_def)
        qed
      qed
    qed
  qed
qed

lemma fix_lines_eq: "fix_lines lines = Inr (patch lines)"
  by (simp add: fix_lines_def scan_eq)

section \<open>How the scan composes\<close>

lemma next_is_open_Nil: "next_is_open [] = False"
  by (simp add: next_is_open_def)

lemma next_is_open_Cons:
  "next_is_open (x # xs) = (if blank_or_comment x then next_is_open xs else x = ''  {'')"
  by (simp add: next_is_open_def)

lemma next_is_open_run:
  "\<forall>l\<in>set run. blank_or_comment l \<Longrightarrow> next_is_open (run @ xs) = next_is_open xs"
  by (induction run) (simp_all add: next_is_open_Cons)

lemma next_is_open_boundary:
  "\<not> blank_or_comment l \<Longrightarrow> l \<noteq> ''  {'' \<Longrightarrow> next_is_open (pre @ l # rest) = next_is_open pre"
  by (induction pre) (simp_all add: next_is_open_Cons next_is_open_Nil)

lemma patch_boundary:
  "\<not> blank_or_comment l \<Longrightarrow> l \<noteq> ''  {'' \<Longrightarrow> patch (pre @ l # rest) = patch pre @ patch (l # rest)"
proof (induction pre)
  case Nil
  show ?case by simp
next
  case (Cons x pre)
  have n: "next_is_open (pre @ l # rest) = next_is_open pre"
    using Cons.prems by (rule next_is_open_boundary)
  have b: "(blank_first (pre @ l # rest) \<and> next_is_open (pre @ l # rest)) =
           (blank_first pre \<and> next_is_open pre)"
    using n by (cases pre) (simp_all add: blank_first_def next_is_open_Nil)
  have "patch (x # pre @ l # rest) =
     (if is_inner_close x then
        (if next_is_open pre then [x, ''  },''] else [x]) @ patch (pre @ l # rest)
      else if x = ''  },'' \<and> blank_first pre \<and> next_is_open pre then patch (pre @ l # rest)
      else x # patch (pre @ l # rest))"
    using b n by (simp del: append_Cons)
  also have "\<dots> = patch (x # pre) @ patch (l # rest)"
    using Cons.IH [OF Cons.prems] by (simp del: patch.simps(2) add: patch.simps(2) [of x pre])
  finally show ?case by simp
qed

lemma open_not_inner: "\<not> is_inner_close ''  {''"
  by (simp add: is_inner_close_def strip_open)

lemma patch_open: "patch (''  {'' # xs) = ''  {'' # patch xs"
  by (simp add: open_not_inner)

lemma inner_not_blank_or_comment: "is_inner_close l \<Longrightarrow> \<not> blank_or_comment l"
  using blank_or_comment_not_inner by blast

lemma outer_not_blank_or_comment: "\<not> blank_or_comment ''  },''"
  using blank_or_comment_not_outer by blast

lemma open_not_blank_or_comment: "\<not> blank_or_comment ''  {''"
  using blank_or_comment_not_open by blast

section \<open>Termination and index safety\<close>

text \<open>
  Claim C9. For every list of lines the scan terminates and is total. The three loops
  are defined with a measure that each turn decreases (the number of lines minus the
  cursor), so they return for every cursor, buffer and result. They never raise
  \<open>IndexError\<close>: from every cursor \<open>i\<close> the main loop returns a result, and so does
  the script's scan from 0. Rule 1's lookahead started at \<open>j\<close> returns a cursor
  \<open>j'\<close> with \<open>j \<le> j'\<close> that stays within the line count, and below it when the
  opening brace was found (the main loop resumes there, and since the lookahead
  starts at \<open>i + 1\<close> it resumes beyond \<open>i\<close>). Rule 2's lookahead likewise
  returns a cursor between its start and the line count.
\<close>

theorem scan_total_cursors_advance:
  "(\<exists>r. scan lines i result = Inr r) \<and>
   (\<exists>r. fix_lines lines = Inr r) \<and>
   (\<exists>j' b f. lookahead lines j buffer = Inr (j', b, f) \<and> j \<le> j' \<and>
      (j \<le> length lines \<longrightarrow> j' \<le> length lines) \<and> (f \<longrightarrow> j' < length lines)) \<and>
   (\<exists>j'. skip_run lines j = Inr j' \<and> j \<le> j' \<and> (j \<le> length lines \<longrightarrow> j' \<le> length lines))"
proof -
  let ?tw = "takeWhile blank_or_comment (drop j lines)"
  have le: "j \<le> length lines \<Longrightarrow> j + length ?tw \<le> length lines"
    using length_takeWhile_le [of blank_or_comment "drop j lines"] by simp
  have lt: "j + length ?tw < length lines" if "next_is_open (drop j lines)"
  proof -
    from that obtain y ys where "dropWhile blank_or_comment (drop j lines) = y # ys"
      by (auto simp: next_is_open_def split: list.splits)
    then have "0 < length (dropWhile blank_or_comment (drop j lines))"
      by simp
    moreover have "length ?tw + length (dropWhile blank_or_comment (drop j lines)) =
        length (drop j lines)"
      using arg_cong [OF takeWhile_dropWhile_id [of blank_or_comment "drop j lines"], of length]
      by (simp only: length_append)
    ultimately have "length ?tw < length (drop j lines)"
      by linarith
    then show ?thesis by simp
  qed
  show ?thesis
    using le lt by (simp add: scan_eq fix_lines_eq lookahead_eq skip_run_eq)
qed

theorem scan_total_cursors_advance_witness:
  "(\<exists>r. scan [''    },'', '''', ''  {''] 0 [] = Inr r) \<and>
   (\<exists>j' b f. lookahead [''    },'', '''', ''  {''] 1 [] = Inr (j', b, f) \<and> 1 \<le> j' \<and>
      j' \<le> 3 \<and> (f \<longrightarrow> j' < 3)) \<and>
   (\<exists>j'. skip_run [''    },'', '''', ''  {''] 1 = Inr j' \<and> 1 \<le> j' \<and> j' \<le> 3)"
  using scan_total_cursors_advance [of "[''    },'', '''', ''  {'']" 0 "[]" 1 "[]"]
  by (simp add: numeral_3_eq_3)

section \<open>Rule 1: the missing close\<close>

lemma patch_insert:
  assumes "is_inner_close l" and "\<forall>x\<in>set run. blank_or_comment x"
  shows "patch (l # run @ ''  {'' # post) = l # ''  },'' # run @ ''  {'' # patch post"
proof -
  have "next_is_open (run @ ''  {'' # post)"
    using assms(2) by (simp add: next_is_open_run next_is_open_Cons open_not_blank_or_comment)
  moreover have "patch (run @ ''  {'' # post) = run @ ''  {'' # patch post"
    using assms(2) by (simp add: patch_run patch_open del: patch.simps(2))
  ultimately show ?thesis
    using assms(1) by simp
qed

lemma patch_no_insert:
  assumes "is_inner_close l" and "\<forall>x\<in>set run. blank_or_comment x"
  shows "patch (l # run @ ''  },'' # post) = l # run @ patch (''  },'' # post)"
proof -
  have "\<not> next_is_open (run @ ''  },'' # post)"
    using assms(2) by (simp add: next_is_open_run next_is_open_Cons outer_not_blank_or_comment)
  moreover have "patch (run @ ''  },'' # post) = run @ patch (''  },'' # post)"
    using assms(2) by (simp add: patch_run del: patch.simps(2))
  ultimately show ?thesis
    using assms(1) by (simp del: patch.simps(2) add: patch.simps(2) [of l])
qed

lemma run_example: "\<forall>l\<in>set [[], ''// note'']. blank_or_comment l"
  by (simp add: blank_or_comment_def strip_def is_space_def startswith_def)

text \<open>
  Claim C3. Take any input in which a line \<open>'    },'\<close> is followed by a run of zero
  or more blank or comment-only lines and then by a line \<open>'  {'\<close>; \<open>pre\<close> and
  \<open>post\<close> are the lines before and after. The output is the output for \<open>pre\<close>,
  then \<open>'    },'\<close>, then an inserted \<open>'  },'\<close>, then the run unchanged and in
  order, then \<open>'  {'\<close>, then the output for \<open>post\<close>. At the cursor of the
  \<open>'    },'\<close> line the main loop continues at the cursor of the \<open>'  {'\<close> line,
  with these lines appended to the result. The witness is the example of the
  specification.
\<close>

theorem insert_after_inner_close:
  assumes "\<forall>l\<in>set run. blank_or_comment l"
  shows "(\<exists>pre' post'. fix_lines pre = Inr pre' \<and> fix_lines post = Inr post' \<and>
            fix_lines (pre @ [''    },''] @ run @ [''  {''] @ post) =
              Inr (pre' @ [''    },'', ''  },''] @ run @ [''  {''] @ post')) \<and>
         scan (pre @ [''    },''] @ run @ [''  {''] @ post) (length pre) result =
           scan (pre @ [''    },''] @ run @ [''  {''] @ post) (length pre + 1 + length run)
             (result @ [''    },'', ''  },''] @ run)"
proof -
  let ?lines = "pre @ [''    },''] @ run @ [''  {''] @ post"
  have p: "patch (''    },'' # run @ ''  {'' # post) =
      ''    },'' # ''  },'' # run @ ''  {'' # patch post"
    using inner_close_literal assms by (rule patch_insert)
  have "patch ?lines = patch pre @ patch (''    },'' # run @ ''  {'' # post)"
    using patch_boundary [of "''    },''" pre "run @ ''  {'' # post"]
      inner_not_blank_or_comment [OF inner_close_literal]
    by simp
  then have whole: "patch ?lines = patch pre @ [''    },'', ''  },''] @ run @ [''  {''] @ patch post"
    by (simp only: p) simp
  have d1: "drop (length pre) ?lines = ''    },'' # run @ ''  {'' # post"
    by simp
  have d2: "drop (length pre + 1 + length run) ?lines = ''  {'' # post"
    by simp
  have "scan ?lines (length pre) result =
      Inr (result @ ''    },'' # ''  },'' # run @ ''  {'' # patch post)"
    by (simp only: scan_eq d1 p)
  moreover have "scan ?lines (length pre + 1 + length run) (result @ [''    },'', ''  },''] @ run) =
      Inr (result @ ''    },'' # ''  },'' # run @ ''  {'' # patch post)"
    by (simp only: scan_eq d2 patch_open) simp
  ultimately show ?thesis
    using whole by (simp only: fix_lines_eq) simp
qed

theorem insert_after_inner_close_witness:
  "blank_or_comment [] \<and> blank_or_comment ''// note'' \<and>
   fix_lines [''    },'', [], ''// note'', ''  {''] =
     Inr [''    },'', ''  },'', [], ''// note'', ''  {''] \<and>
   scan [''    },'', [], ''// note'', ''  {''] 0 [] =
     scan [''    },'', [], ''// note'', ''  {''] 3 [''    },'', ''  },'', [], ''// note'']"
  using insert_after_inner_close [OF run_example, of "[]" "[]" "[]"] run_example
  by (simp add: fix_lines_eq numeral_3_eq_3)

text \<open>
  Claim C6. Take any input in which a line \<open>'    },'\<close> is followed by a run of zero
  or more blank or comment-only lines that ends at an existing \<open>'  },'\<close>. Rule 1's
  lookahead from the line after \<open>'    },'\<close> stops at the \<open>'  },'\<close> with
  \<open>found_array_start\<close> false, the main loop appends only the \<open>'    },'\<close> line and
  goes on at the next line, and in the output \<open>'    },'\<close> is followed by the run
  and then by whatever the scan makes of the lines from the existing \<open>'  },'\<close> on:
  nothing is inserted after \<open>'    },'\<close>.
\<close>

theorem no_insert_when_close_present:
  assumes "\<forall>l\<in>set run. blank_or_comment l"
  shows "lookahead (pre @ [''    },''] @ run @ [''  },''] @ post) (length pre + 1) [] =
           Inr (length pre + 1 + length run, run, False) \<and>
         scan (pre @ [''    },''] @ run @ [''  },''] @ post) (length pre) result =
           scan (pre @ [''    },''] @ run @ [''  },''] @ post) (length pre + 1)
             (result @ [''    },'']) \<and>
         (\<exists>pre' rest'. fix_lines pre = Inr pre' \<and> fix_lines (''  },'' # post) = Inr rest' \<and>
            fix_lines (pre @ [''    },''] @ run @ [''  },''] @ post) =
              Inr (pre' @ [''    },''] @ run @ rest'))"
proof -
  let ?lines = "pre @ [''    },''] @ run @ [''  },''] @ post"
  have p: "patch (''    },'' # run @ ''  },'' # post) = ''    },'' # run @ patch (''  },'' # post)"
    using inner_close_literal assms by (rule patch_no_insert)
  have "patch ?lines = patch pre @ patch (''    },'' # run @ ''  },'' # post)"
    using patch_boundary [of "''    },''" pre "run @ ''  },'' # post"]
      inner_not_blank_or_comment [OF inner_close_literal]
    by simp
  then have whole: "patch ?lines = patch pre @ [''    },''] @ run @ patch (''  },'' # post)"
    by (simp only: p) simp
  have d0: "drop (length pre) ?lines = ''    },'' # run @ ''  },'' # post"
    by simp
  have d1: "drop (length pre + 1) ?lines = run @ ''  },'' # post"
    by simp
  have tw: "takeWhile blank_or_comment (run @ ''  },'' # post) = run"
    using assms by (simp add: takeWhile_append2 outer_not_blank_or_comment)
  have no: "\<not> next_is_open (run @ ''  },'' # post)"
    using assms by (simp add: next_is_open_run next_is_open_Cons outer_not_blank_or_comment)
  have la: "lookahead ?lines (length pre + 1) [] = Inr (length pre + 1 + length run, run, False)"
    by (simp only: lookahead_eq d1 tw no) simp
  have "scan ?lines (length pre) result = Inr (result @ ''    },'' # run @ patch (''  },'' # post))"
    by (simp only: scan_eq d0 p)
  moreover have "scan ?lines (length pre + 1) (result @ [''    },'']) =
      Inr (result @ ''    },'' # run @ patch (''  },'' # post))"
    using assms by (simp only: scan_eq d1 patch_run) simp
  ultimately show ?thesis
    using whole la by (simp only: fix_lines_eq) simp
qed

theorem no_insert_when_close_present_witness:
  "blank_or_comment [] \<and> blank_or_comment ''// note'' \<and>
   lookahead [''    },'', [], ''// note'', ''  },'', ''  {''] 1 [] =
     Inr (3, [[], ''// note''], False) \<and>
   fix_lines [''    },'', [], ''// note'', ''  },'', ''  {''] =
     Inr [''    },'', [], ''// note'', ''  },'', ''  {'']"
  using no_insert_when_close_present [OF run_example, of "[]" "[''  {'']" "[]"] run_example
  by (simp add: fix_lines_eq numeral_3_eq_3 blank_first_def strip_open is_inner_close_def strip_outer_close
      startswith_def patch_open del: patch.simps(2) add: patch.simps(2) [of "''  },''"])

lemma lookahead_states_inv:
  "\<forall>l\<in>set buffer. blank_or_comment l \<Longrightarrow>
     \<forall>s\<in>set (lookahead_states lines j buffer). \<forall>l\<in>set (snd s). blank_or_comment l"
proof (induction lines j buffer rule: lookahead_states.induct)
  case (1 lines j buffer)
  show ?case
  proof (cases "j < length lines \<and>
      (strip (lines ! j) = [] \<or> startswith (strip (lines ! j)) ''//'')")
    case True
    then have "\<forall>l\<in>set (buffer @ [lines ! j]). blank_or_comment l"
      using "1.prems" by (auto simp: blank_or_comment_def)
    with "1.IH" [OF True] "1.prems" True show ?thesis
      by (simp add: lookahead_states.simps [of lines j buffer])
  next
    case False
    have "lookahead_states lines j buffer = [(j, buffer)]"
      by (subst lookahead_states.simps) (rule if_not_P [OF False])
    with "1.prems" show ?thesis
      by simp
  qed
qed

lemma lookahead_states_same:
  "\<forall>s\<in>set (lookahead_states lines j buffer).
     lookahead lines (fst s) (snd s) = lookahead lines j buffer"
proof (induction lines j buffer rule: lookahead_states.induct)
  case (1 lines j buffer)
  show ?case
  proof (cases "j < length lines \<and>
      (strip (lines ! j) = [] \<or> startswith (strip (lines ! j)) ''//'')")
    case True
    then have "lookahead lines j buffer = lookahead lines (j + 1) (buffer @ [lines ! j])"
      by (simp add: lookahead.simps [of lines j buffer] nth_py_def)
    with "1.IH" [OF True] True show ?thesis
      by (simp add: lookahead_states.simps [of lines j buffer])
  next
    case False
    have "lookahead_states lines j buffer = [(j, buffer)]"
      by (subst lookahead_states.simps) (rule if_not_P [OF False])
    then show ?thesis
      by simp
  qed
qed

lemma lookahead_states_last:
  "lookahead lines j buffer = Inr (j', buffer', found) \<Longrightarrow>
     last (lookahead_states lines j buffer) = (j', buffer')"
proof (induction lines j buffer rule: lookahead_states.induct)
  case (1 lines j buffer)
  show ?case
  proof (cases "j < length lines \<and>
      (strip (lines ! j) = [] \<or> startswith (strip (lines ! j)) ''//'')")
    case True
    then have "lookahead lines j buffer = lookahead lines (j + 1) (buffer @ [lines ! j])"
      by (simp add: lookahead.simps [of lines j buffer] nth_py_def)
    with "1.prems" have "lookahead lines (j + 1) (buffer @ [lines ! j]) = Inr (j', buffer', found)"
      by simp
    from "1.IH" [OF True this] True show ?thesis
      by (simp add: lookahead_states.simps [of lines j buffer]
          lookahead_states.simps [of lines "Suc j"])
  next
    case False
    with "1.prems" show ?thesis
      by (auto simp: lookahead_states.simps [of lines j buffer]
          lookahead.simps [of lines j buffer] nth_py_def Let_def split: if_splits)
  qed
qed

lemma no_close_in_blank_or_comment:
  "\<forall>l\<in>set b. blank_or_comment l \<Longrightarrow> \<not> has_close b"
  using outer_not_blank_or_comment by (auto simp: has_close_def list_ex_iff)

text \<open>
  Claim C8. Rule 1's lookahead only ever appends to the buffer a line that is blank
  or whose stripped text begins with \<open>//\<close>. So if the buffer holds only such lines
  when the loop starts (it starts empty), then at the start of every turn of the
  loop, and when the loop ends, the buffer holds only such lines; such a line is
  never \<open>'  },'\<close>, hence \<open>has_close\<close> is false for each of these buffers. In the
  main loop, at an inner closing line whose lookahead found the opening brace, the
  \<open>'  },'\<close> is therefore always appended: the result of the scan from that line is
  the result so far, the line, the inserted \<open>'  },'\<close>, the buffer, and then what the
  scan makes of the lines from the opening brace on.
\<close>

theorem lookahead_buffer_invariant:
  assumes "\<forall>l\<in>set buffer. blank_or_comment l"
    and "lookahead lines j buffer = Inr (j', buffer', found)"
  shows "(\<forall>s\<in>set (lookahead_states lines j buffer).
            (\<forall>l\<in>set (snd s). blank_or_comment l) \<and> ''  },'' \<notin> set (snd s) \<and>
            \<not> has_close (snd s) \<and>
            lookahead lines (fst s) (snd s) = Inr (j', buffer', found)) \<and>
         last (lookahead_states lines j buffer) = (j', buffer') \<and>
         (\<forall>l\<in>set buffer'. blank_or_comment l) \<and> ''  },'' \<notin> set buffer' \<and>
         \<not> has_close buffer' \<and>
         (i < length lines \<and> strip (lines ! i) = ''},'' \<and> startswith (lines ! i) ''    '' \<and>
          j = i + 1 \<and> buffer = [] \<and> found \<longrightarrow>
            j' < length lines \<and> lines ! j' = ''  {'' \<and>
            (\<exists>rest'. fix_lines (drop (j' + 1) lines) = Inr rest' \<and>
               scan lines i result =
                 Inr (result @ [lines ! i, ''  },''] @ buffer' @ [''  {''] @ rest')))"
proof -
  let ?tw = "takeWhile blank_or_comment (drop j lines)"
  from assms(2) have j': "j' = j + length ?tw" and b': "buffer' = buffer @ ?tw"
    and f: "found = next_is_open (drop j lines)"
    by (simp_all add: lookahead_eq)
  have states: "\<forall>s\<in>set (lookahead_states lines j buffer).
      (\<forall>l\<in>set (snd s). blank_or_comment l) \<and> ''  },'' \<notin> set (snd s) \<and>
      \<not> has_close (snd s) \<and> lookahead lines (fst s) (snd s) = Inr (j', buffer', found)"
  proof
    fix s
    assume s: "s \<in> set (lookahead_states lines j buffer)"
    with lookahead_states_inv [OF assms(1), of lines j]
    have a: "\<forall>l\<in>set (snd s). blank_or_comment l"
      by blast
    then have "''  },'' \<notin> set (snd s)"
      using outer_not_blank_or_comment by blast
    moreover have "\<not> has_close (snd s)"
      using a by (rule no_close_in_blank_or_comment)
    moreover have "lookahead lines (fst s) (snd s) = Inr (j', buffer', found)"
      using lookahead_states_same [of lines j buffer] s assms(2) by auto
    ultimately show "(\<forall>l\<in>set (snd s). blank_or_comment l) \<and> ''  },'' \<notin> set (snd s) \<and>
      \<not> has_close (snd s) \<and> lookahead lines (fst s) (snd s) = Inr (j', buffer', found)"
      using a by blast
  qed
  have lst: "last (lookahead_states lines j buffer) = (j', buffer')"
    using assms(2) by (rule lookahead_states_last)
  have inv: "\<forall>l\<in>set buffer'. blank_or_comment l"
    using assms(1) by (auto simp: b' dest: set_takeWhileD)
  then have no: "''  },'' \<notin> set buffer'"
    using outer_not_blank_or_comment by blast
  have nh: "\<not> has_close buffer'"
    using inv by (rule no_close_in_blank_or_comment)
  have step: "j' < length lines \<and> lines ! j' = ''  {'' \<and>
      (\<exists>rest'. fix_lines (drop (j' + 1) lines) = Inr rest' \<and>
         scan lines i result = Inr (result @ [lines ! i, ''  },''] @ buffer' @ [''  {''] @ rest'))"
    if "i < length lines" "is_inner_close (lines ! i)" "j = i + 1" "buffer = []" "found"
  proof -
    have d: "drop i lines = lines ! i # drop j lines"
      using that(1,3) by (simp add: Cons_nth_drop_Suc)
    have dj: "drop j' lines = dropWhile blank_or_comment (drop j lines)"
      by (simp add: j' dropWhile_eq_drop add.commute)
    from that(5) f obtain tl where o: "drop j' lines = ''  {'' # tl"
      by (auto simp: next_is_open_def dj split: list.splits)
    then have lt: "j' < length lines"
      by (metis drop_all list.distinct(1) not_le)
    then have nth: "lines ! j' = ''  {''" and tl: "tl = drop (j' + 1) lines"
      using o by (simp_all add: Cons_nth_drop_Suc [symmetric])
    have "patch (drop i lines) = [lines ! i, ''  },''] @ patch (drop j lines)"
      using that(2,5) f by (simp add: d)
    also have "patch (drop j lines) = ?tw @ patch (drop j' lines)"
      unfolding dj by (rule patch_skip)
    also have "patch (drop j' lines) = ''  {'' # patch (drop (j' + 1) lines)"
      by (simp only: o patch_open tl)
    finally have "scan lines i result =
        Inr (result @ [lines ! i, ''  },''] @ buffer' @ [''  {''] @ patch (drop (j' + 1) lines))"
      using that(4) by (simp add: scan_eq b')
    with lt nth show ?thesis
      by (simp add: fix_lines_eq)
  qed
  from states lst inv no nh step show ?thesis
    by (simp only: is_inner_close_def) blast
qed

theorem lookahead_buffer_invariant_witness:
  "lookahead [''    },'', [], ''// note'', ''  {''] 1 [] = Inr (3, [[], ''// note''], True) \<and>
   lookahead_states [''    },'', [], ''// note'', ''  {''] 1 [] =
     [(1, []), (2, [[]]), (3, [[], ''// note''])] \<and>
   blank_or_comment [] \<and> blank_or_comment ''// note'' \<and>
   \<not> has_close [[]] \<and> \<not> has_close [[], ''// note''] \<and>
   scan [''    },'', [], ''// note'', ''  {''] 0 [] =
     Inr [''    },'', ''  },'', [], ''// note'', ''  {'']"
proof -
  let ?L = "[''    },'', [], ''// note'', ''  {'']"
  have h1: "\<forall>l\<in>set ([] :: string list). blank_or_comment l"
    by simp
  have h2: "lookahead ?L 1 [] = Inr (3, [[], ''// note''], True)"
    using run_example
    by (simp add: lookahead_eq next_is_open_Cons open_not_blank_or_comment)
  have st: "lookahead_states ?L 1 [] = [(1, []), (2, [[]]), (3, [[], ''// note''])]"
    by (simp add: lookahead_states.simps [of ?L] numeral_2_eq_2 numeral_3_eq_3
        strip_def is_space_def startswith_def)
  from lookahead_buffer_invariant [OF h1 h2, of 0 "[]"] st h2 show ?thesis
    by (simp add: strip_inner startswith_def fix_lines_eq)
qed

section \<open>Rule 2: the misplaced close\<close>

lemma outer_not_inner: "\<not> is_inner_close ''  },''"
  using inner_not_outer by blast

lemma patch_outer:
  "patch (''  },'' # rest) =
     (if blank_first rest \<and> next_is_open rest then patch rest else ''  },'' # patch rest)"
  by (simp add: outer_not_inner)

lemma patch_drop:
  assumes "\<forall>x\<in>set run. blank_or_comment x" and "run \<noteq> []" and "strip (hd run) = []"
  shows "patch (''  },'' # run @ ''  {'' # post) = run @ ''  {'' # patch post"
proof -
  have "next_is_open (run @ ''  {'' # post)"
    using assms(1) by (simp add: next_is_open_run next_is_open_Cons open_not_blank_or_comment)
  moreover have "blank_first (run @ ''  {'' # post)"
    using assms(2,3) by (cases run) (simp_all add: blank_first_def)
  moreover have "patch (run @ ''  {'' # post) = run @ ''  {'' # patch post"
    using assms(1) by (simp add: patch_run patch_open del: patch.simps(2))
  ultimately show ?thesis
    by (simp only: patch_outer) simp
qed

lemma patch_keep_first:
  assumes "\<forall>x\<in>set run. blank_or_comment x" and "run = [] \<or> strip (hd run) \<noteq> []"
  shows "patch (''  },'' # run @ ''  {'' # post) = ''  },'' # run @ ''  {'' # patch post"
proof -
  have "\<not> blank_first (run @ ''  {'' # post)"
    using assms(2) by (cases run) (simp_all add: blank_first_def strip_open)
  moreover have "patch (run @ ''  {'' # post) = run @ ''  {'' # patch post"
    using assms(1) by (simp add: patch_run patch_open del: patch.simps(2))
  ultimately show ?thesis
    by (simp only: patch_outer) simp
qed

lemma patch_keep_no_open:
  assumes "\<forall>x\<in>set run. blank_or_comment x"
    and "rest = [] \<or> \<not> blank_or_comment (hd rest) \<and> hd rest \<noteq> ''  {''"
  shows "patch (''  },'' # run @ rest) = ''  },'' # run @ patch rest"
proof -
  have "\<not> next_is_open rest"
    using assms(2) by (cases rest) (simp_all add: next_is_open_Nil next_is_open_Cons)
  then have "\<not> next_is_open (run @ rest)"
    using assms(1) by (simp add: next_is_open_run)
  moreover have "patch (run @ rest) = run @ patch rest"
    using assms(1) by (simp add: patch_run)
  ultimately show ?thesis
    by (simp only: patch_outer) simp
qed

lemma patch_at_outer: "patch (pre @ ''  },'' # rest) = patch pre @ patch (''  },'' # rest)"
  using patch_boundary [of "''  },''" pre rest] outer_not_blank_or_comment by simp

text \<open>
  Claim C2, as amended. Take any input in which a line \<open>'  },'\<close> is followed by a
  run of blank or comment-only lines; \<open>pre\<close> holds the lines before the marker.
  If the run is not empty, its first line is blank and the line after the run is
  \<open>'  {'\<close>, the marker is dropped: the output is the output for \<open>pre\<close>, the run,
  \<open>'  {'\<close> and the output for the lines after it. If the run is empty or its first
  line is a comment, and \<open>'  {'\<close> follows the run, the marker is kept. If the run is
  followed by the end of the input or by a line that is neither blank, nor a
  comment, nor \<open>'  {'\<close>, the marker is kept.
\<close>

theorem misplaced_close_dropped:
  assumes "\<forall>l\<in>set run. blank_or_comment l"
  shows "\<exists>pre' post'. fix_lines pre = Inr pre' \<and> fix_lines post = Inr post' \<and>
     (run \<noteq> [] \<and> strip (hd run) = [] \<longrightarrow>
        fix_lines (pre @ [''  },''] @ run @ [''  {''] @ post) =
          Inr (pre' @ run @ [''  {''] @ post')) \<and>
     (run = [] \<or> strip (hd run) \<noteq> [] \<longrightarrow>
        fix_lines (pre @ [''  },''] @ run @ [''  {''] @ post) =
          Inr (pre' @ [''  },''] @ run @ [''  {''] @ post')) \<and>
     (post = [] \<or> \<not> blank_or_comment (hd post) \<and> hd post \<noteq> ''  {'' \<longrightarrow>
        fix_lines (pre @ [''  },''] @ run @ post) = Inr (pre' @ [''  },''] @ run @ post'))"
proof -
  have a: "patch (pre @ [''  },''] @ run @ [''  {''] @ post) = patch pre @ run @ [''  {''] @ patch post"
    if "run \<noteq> []" "strip (hd run) = []"
    using patch_drop [OF assms that] by (simp add: patch_at_outer del: patch.simps(2))
  have b: "patch (pre @ [''  },''] @ run @ [''  {''] @ post) =
      patch pre @ [''  },''] @ run @ [''  {''] @ patch post"
    if "run = [] \<or> strip (hd run) \<noteq> []"
    using patch_keep_first [OF assms that] by (simp add: patch_at_outer del: patch.simps(2))
  have c: "patch (pre @ [''  },''] @ run @ post) = patch pre @ [''  },''] @ run @ patch post"
    if "post = [] \<or> \<not> blank_or_comment (hd post) \<and> hd post \<noteq> ''  {''"
    using patch_keep_no_open [OF assms that] by (simp add: patch_at_outer del: patch.simps(2))
  from a b c show ?thesis
    by (simp only: fix_lines_eq) blast
qed

theorem misplaced_close_dropped_witness:
  "blank_or_comment [] \<and> blank_or_comment ''// note'' \<and>
   strip (hd [[], ''// note'']) = [] \<and>
   fix_lines [''  },'', [], ''// note'', ''  {''] = Inr [[], ''// note'', ''  {''] \<and>
   fix_lines [''  },'', ''  {''] = Inr [''  },'', ''  {''] \<and>
   fix_lines [''  },'', [], ''// note''] = Inr [''  },'', [], ''// note'']"
  using misplaced_close_dropped [OF run_example, of "[]" "[]"]
    misplaced_close_dropped [of "[]" "[]" "[]"] run_example
  by (simp add: fix_lines_eq strip_def)

text \<open>
  Claim C2 as stated fails when the run begins with a comment: the marker is
  followed by a comment-only line and then by the opening brace, and it is kept.
\<close>

theorem comment_first_run_keeps_close:
  "blank_or_comment ''// note'' \<and>
   fix_lines [''  },'', ''// note'', ''  {''] = Inr [''  },'', ''// note'', ''  {'']"
  by (simp add: fix_lines_eq outer_not_inner open_not_inner blank_first_def
      blank_or_comment_def is_inner_close_def strip_def is_space_def startswith_def)

section \<open>The trigger of rule 1\<close>








section \<open>What the scan keeps\<close>

lemma filter_patch:
  "filter (\<lambda>l. l \<noteq> ''  },'') (patch xs) = filter (\<lambda>l. l \<noteq> ''  },'') xs"
  by (induction xs) (simp_all add: inner_not_outer)

lemma dropped_at_Suc: "dropped_at (x # xs) (Suc i) = dropped_at xs i"
  by (simp add: dropped_at_def)

lemma inserted_after_Suc: "inserted_after (x # xs) (Suc i) = inserted_after xs i"
  by (simp add: inserted_after_def)

lemma emitted_Suc: "emitted (x # xs) (Suc i) = emitted xs i"
  by (simp add: emitted_def dropped_at_Suc inserted_after_Suc)

lemma dropped_not_inserted: "dropped_at xs i \<Longrightarrow> \<not> inserted_after xs i"
  by (auto simp: dropped_at_def inserted_after_def dest: inner_not_outer)

lemma patch_Cons_emitted: "patch (x # xs) = emitted (x # xs) 0 @ patch xs"
  by (auto simp: emitted_def dropped_at_def inserted_after_def dest: inner_not_outer)

lemma patch_emitted: "patch xs = concat (map (emitted xs) [0..<length xs])"
proof (induction xs)
  case Nil
  show ?case by simp
next
  case (Cons x xs)
  have "[0..<length (x # xs)] = 0 # map Suc [0..<length xs]"
    by (simp add: upt_conv_Cons map_Suc_upt del: upt_Suc)
  then have "concat (map (emitted (x # xs)) [0..<length (x # xs)]) =
      emitted (x # xs) 0 @ concat (map (emitted xs) [0..<length xs])"
    by (simp only: list.map concat.simps map_map o_def emitted_Suc)
  with Cons.IH show ?case
    by (simp only: patch_Cons_emitted)
qed

lemma kept_subseq_aux:
  "subseq (map (\<lambda>i. xs ! i) (filter (\<lambda>i. \<not> dropped_at xs i) ks))
     (concat (map (emitted xs) ks))"
proof (induction ks)
  case Nil
  show ?case by simp
next
  case (Cons k ks)
  show ?case
  proof (cases "dropped_at xs k")
    case True
    then have "emitted xs k = []"
      by (simp add: emitted_def dropped_not_inserted)
    with True Cons.IH show ?thesis
      by simp
  next
    case False
    then obtain e where "emitted xs k = xs ! k # e"
      by (cases "inserted_after xs k") (simp_all add: emitted_def)
    moreover have "subseq (map (\<lambda>i. xs ! i) (filter (\<lambda>i. \<not> dropped_at xs i) ks))
        (e @ concat (map (emitted xs) ks))"
      using Cons.IH by (rule list_emb_append2)
    ultimately show ?thesis
      using False by simp
  qed
qed

lemma kept_subseq: "subseq (kept_lines xs) (patch xs)"
  by (simp only: kept_lines_def patch_emitted kept_subseq_aux)

lemma next_is_open_iff:
  "next_is_open xs \<longleftrightarrow>
     (\<exists>run rest. xs = run @ ''  {'' # rest \<and> (\<forall>l\<in>set run. blank_or_comment l))"
proof
  assume "next_is_open xs"
  then obtain rest where "dropWhile blank_or_comment xs = ''  {'' # rest"
    by (auto simp: next_is_open_def split: list.splits)
  then have "xs = takeWhile blank_or_comment xs @ ''  {'' # rest"
    by (metis takeWhile_dropWhile_id)
  moreover have "\<forall>l\<in>set (takeWhile blank_or_comment xs). blank_or_comment l"
    by (auto dest: set_takeWhileD)
  ultimately show "\<exists>run rest. xs = run @ ''  {'' # rest \<and> (\<forall>l\<in>set run. blank_or_comment l)"
    by blast
next
  assume "\<exists>run rest. xs = run @ ''  {'' # rest \<and> (\<forall>l\<in>set run. blank_or_comment l)"
  then show "next_is_open xs"
    by (auto simp: next_is_open_run next_is_open_Cons open_not_blank_or_comment)
qed

lemma blank_first_next_is_open_iff:
  "blank_first xs \<and> next_is_open xs \<longleftrightarrow>
     (\<exists>run rest. xs = run @ ''  {'' # rest \<and> run \<noteq> [] \<and> strip (hd run) = [] \<and>
        (\<forall>l\<in>set run. blank_or_comment l))"
proof
  assume a: "blank_first xs \<and> next_is_open xs"
  then obtain run rest where xs: "xs = run @ ''  {'' # rest"
    and run: "\<forall>l\<in>set run. blank_or_comment l"
    by (auto simp: next_is_open_iff)
  have "run \<noteq> [] \<and> strip (hd run) = []"
    using a xs by (cases run) (simp_all add: blank_first_def strip_open)
  with xs run
  show "\<exists>run rest. xs = run @ ''  {'' # rest \<and> run \<noteq> [] \<and> strip (hd run) = [] \<and>
      (\<forall>l\<in>set run. blank_or_comment l)"
    by blast
next
  assume "\<exists>run rest. xs = run @ ''  {'' # rest \<and> run \<noteq> [] \<and> strip (hd run) = [] \<and>
      (\<forall>l\<in>set run. blank_or_comment l)"
  then obtain run rest where xs: "xs = run @ ''  {'' # rest" and ne: "run \<noteq> []"
    and hd: "strip (hd run) = []" and run: "\<forall>l\<in>set run. blank_or_comment l"
    by blast
  have "blank_first xs"
    using xs ne hd by (cases run) (simp_all add: blank_first_def)
  moreover have "next_is_open xs"
    using xs run by (auto simp: next_is_open_iff)
  ultimately show "blank_first xs \<and> next_is_open xs"
    by blast
qed

text \<open>
  Claim C5, as amended. For every input the scan returns an output that is the
  input taken line by line, where each line contributes itself, or itself followed
  by an inserted \<open>'  },'\<close>, or nothing. It contributes nothing, that is, the line
  is removed, exactly when it is \<open>'  },'\<close> and is followed by a non-empty run of
  blank or comment-only lines that begins with a blank line and ends at \<open>'  {'\<close>.
  A marker is inserted after it exactly when it passes rule 1's trigger and is
  followed by a run of blank or comment-only lines that ends at \<open>'  {'\<close>. Hence the
  input without the removed \<open>'  },'\<close> lines is a subsequence of the output: every
  other line appears in the output and their relative order is preserved; and with
  the \<open>'  },'\<close> lines left out, input and output are the same sequence, so nothing
  but \<open>'  },'\<close> lines is added.
\<close>

theorem scan_line_by_line:
  "\<exists>out. fix_lines lines = Inr out \<and>
     out = concat (map (emitted lines) [0..<length lines]) \<and>
     subseq (kept_lines lines) out \<and>
     filter (\<lambda>l. l \<noteq> ''  },'') out = filter (\<lambda>l. l \<noteq> ''  },'') lines \<and>
     (\<forall>i. dropped_at lines i \<longleftrightarrow>
        lines ! i = ''  },'' \<and>
        (\<exists>run rest. drop (Suc i) lines = run @ ''  {'' # rest \<and> run \<noteq> [] \<and>
           strip (hd run) = [] \<and> (\<forall>l\<in>set run. blank_or_comment l))) \<and>
     (\<forall>i. inserted_after lines i \<longleftrightarrow>
        strip (lines ! i) = ''},'' \<and> startswith (lines ! i) ''    '' \<and>
        (\<exists>run rest. drop (Suc i) lines = run @ ''  {'' # rest \<and>
           (\<forall>l\<in>set run. blank_or_comment l)))"
proof -
  have d: "dropped_at lines i \<longleftrightarrow>
      lines ! i = ''  },'' \<and>
      (\<exists>run rest. drop (Suc i) lines = run @ ''  {'' # rest \<and> run \<noteq> [] \<and>
         strip (hd run) = [] \<and> (\<forall>l\<in>set run. blank_or_comment l))" for i
    using blank_first_next_is_open_iff [of "drop (Suc i) lines"]
    by (simp only: dropped_at_def)
  have a: "inserted_after lines i \<longleftrightarrow>
      strip (lines ! i) = ''},'' \<and> startswith (lines ! i) ''    '' \<and>
      (\<exists>run rest. drop (Suc i) lines = run @ ''  {'' # rest \<and>
         (\<forall>l\<in>set run. blank_or_comment l))" for i
    using next_is_open_iff [of "drop (Suc i) lines"]
    by (simp only: inserted_after_def is_inner_close_def) blast
  have "patch lines = concat (map (emitted lines) [0..<length lines])"
    by (rule patch_emitted)
  moreover have "subseq (kept_lines lines) (patch lines)"
    by (rule kept_subseq)
  moreover have "filter (\<lambda>l. l \<noteq> ''  },'') (patch lines) = filter (\<lambda>l. l \<noteq> ''  },'') lines"
    by (rule filter_patch)
  ultimately show ?thesis
    using d a by (simp only: fix_lines_eq) blast
qed

theorem scan_line_by_line_witness:
  "fix_lines [''    },'', ''  {'', ''  },'', [], ''x'', ''  },'', [], ''  {''] =
     Inr [''    },'', ''  },'', ''  {'', ''  },'', [], ''x'', [], ''  {''] \<and>
   kept_lines [''    },'', ''  {'', ''  },'', [], ''x'', ''  },'', [], ''  {''] =
     [''    },'', ''  {'', ''  },'', [], ''x'', [], ''  {''] \<and>
   subseq [''    },'', ''  {'', ''  },'', [], ''x'', [], ''  {'']
     [''    },'', ''  },'', ''  {'', ''  },'', [], ''x'', [], ''  {''] \<and>
   inserted_after [''    },'', ''  {'', ''  },'', [], ''x'', ''  },'', [], ''  {''] 0 \<and>
   \<not> dropped_at [''    },'', ''  {'', ''  },'', [], ''x'', ''  },'', [], ''  {''] 2 \<and>
   dropped_at [''    },'', ''  {'', ''  },'', [], ''x'', ''  },'', [], ''  {''] 5"
proof -
  let ?L = "[''    },'', ''  {'', ''  },'', [], ''x'', ''  },'', [], ''  {'']"
  have k: "kept_lines ?L = [''    },'', ''  {'', ''  },'', [], ''x'', [], ''  {'']"
    by code_simp
  have p: "fix_lines ?L = Inr [''    },'', ''  },'', ''  {'', ''  },'', [], ''x'', [], ''  {'']"
    unfolding fix_lines_eq by code_simp
  have i: "inserted_after ?L 0"
    by code_simp
  have n: "\<not> dropped_at ?L 2"
    by code_simp
  have d: "dropped_at ?L 5"
    by code_simp
  from scan_line_by_line [of ?L] p k i n d show ?thesis
    by (auto simp only: sum.inject)
qed

text \<open>
  Claim C5 as stated fails: here a line of the input is removed, and the output
  does not contain it.
\<close>

theorem misplaced_close_is_removed:
  "fix_lines [''  },'', [], ''  {''] = Inr [[], ''  {''] \<and>
   ''  },'' \<in> set [''  },'', [], ''  {''] \<and> ''  },'' \<notin> set [[], ''  {'']"
  by (simp add: fix_lines_eq outer_not_inner open_not_inner blank_first_def
      next_is_open_Cons blank_or_comment_def is_inner_close_def strip_def is_space_def
      startswith_def)

section \<open>Input that triggers no rule\<close>

lemma patch_id:
  "\<forall>l\<in>set xs. \<not> is_inner_close l \<and> l \<noteq> ''  },'' \<Longrightarrow> patch xs = xs"
  by (induction xs) simp_all

lemma split_nl_not_Nil: "split_nl s \<noteq> []"
  by (induction s) simp_all

lemma join_nl_Cons: "ls \<noteq> [] \<Longrightarrow> join_nl (l # ls) = l @ CHR 0x0A # join_nl ls"
  by (cases ls) simp_all

lemma join_nl_Cons_char: "join_nl ((c # l) # ls) = c # join_nl (l # ls)"
  by (cases ls) simp_all

lemma join_split: "join_nl (split_nl s) = s"
proof (induction s)
  case Nil
  show ?case by simp
next
  case (Cons c s)
  obtain h t where ht: "split_nl s = h # t"
    using split_nl_not_Nil [of s] by (cases "split_nl s") simp_all
  show ?case
  proof (cases "c = CHR 0x0A")
    case True
    then show ?thesis
      using Cons.IH by (simp add: join_nl_Cons split_nl_not_Nil)
  next
    case False
    then show ?thesis
      using Cons.IH by (simp add: ht join_nl_Cons_char)
  qed
qed

text \<open>
  Claim C7. When no line of the input triggers a rule, that is, no line both strips
  to \<open>},\<close> and begins with four spaces and no line equals \<open>'  },'\<close>, the scan
  returns the lines as they are, the text written is the text read, character for
  character, and the script leaves the file system as it was and prints its message.
\<close>

theorem untouched_content:
  assumes "\<forall>l\<in>set (split_nl content).
             \<not> (strip l = ''},'' \<and> startswith l ''    '') \<and> l \<noteq> ''  },''"
  shows "fix_lines (split_nl content) = Inr (split_nl content) \<and>
         fix_content content = Inr content \<and>
         (fs target_path = Some content \<longrightarrow>
            run_script fs = Inr (fs, ''Fixed file'' @ [CHR 0x0A]))"
proof -
  have "patch (split_nl content) = split_nl content"
    using assms by (intro patch_id) (simp add: is_inner_close_def)
  then have l: "fix_lines (split_nl content) = Inr (split_nl content)"
    by (simp add: fix_lines_eq)
  then have c: "fix_content content = Inr content"
    by (simp add: fix_content_def join_split)
  have "run_script fs = Inr (fs, ''Fixed file'' @ [CHR 0x0A])" if "fs target_path = Some content"
    using that c by (simp add: run_script_def map_upd_triv)
  with l c show ?thesis
    by blast
qed

theorem untouched_content_witness:
  "split_nl (''a,'' @ [CHR 0x0A] @ ''  {'') = [''a,'', ''  {''] \<and>
   fix_content (''a,'' @ [CHR 0x0A] @ ''  {'') = Inr (''a,'' @ [CHR 0x0A] @ ''  {'') \<and>
   run_script [target_path \<mapsto> ''a,'' @ [CHR 0x0A] @ ''  {''] =
     Inr ([target_path \<mapsto> ''a,'' @ [CHR 0x0A] @ ''  {''], ''Fixed file'' @ [CHR 0x0A])"
proof -
  have s: "split_nl (''a,'' @ [CHR 0x0A] @ ''  {'') = [''a,'', ''  {'']"
    by simp
  have h: "\<forall>l\<in>set (split_nl (''a,'' @ [CHR 0x0A] @ ''  {'')).
             \<not> (strip l = ''},'' \<and> startswith l ''    '') \<and> l \<noteq> ''  },''"
    by (simp only: s) (simp add: strip_def is_space_def startswith_def)
  from untouched_content [OF h, of "[target_path \<mapsto> ''a,'' @ [CHR 0x0A] @ ''  {'']"] s
  show ?thesis
    by simp
qed

section \<open>Running the script twice\<close>

text \<open>
  Claim C1. The scan is not idempotent. On the input \<open>'    },'\<close>, blank line,
  \<open>'  {'\<close> the first run inserts \<open>'  },'\<close> after the first line. On that output
  the second run finds the marker followed by a blank line and then \<open>'  {'\<close>, takes
  it for misplaced and drops it: the second run returns the original input, not the
  output of the first.
\<close>

theorem second_run_undoes_first:
  "fix_lines [''    },'', [], ''  {''] = Inr [''    },'', ''  },'', [], ''  {''] \<and>
   fix_lines [''    },'', ''  },'', [], ''  {''] = Inr [''    },'', [], ''  {''] \<and>
   [''    },'', [], ''  {''] \<noteq> [''    },'', ''  },'', [], ''  {'']"
  by (simp add: fix_lines_eq inner_close_literal outer_not_inner open_not_inner
      blank_first_def next_is_open_Cons next_is_open_Nil outer_not_blank_or_comment
      open_not_blank_or_comment blank_or_comment_def strip_def is_space_def
      is_inner_close_def startswith_def)

end
